theory Spec2Isabelle
  imports Main "HOL-Library.Char_ord" "HOL-Library.List_Lexorder" "HOL-Library.AList"
begin

section \<open>Gym management: the ordered index of events and tickets\<close>

text \<open>
  A shallow embedding of \<^verbatim>\<open>src/level1/gym_management.c\<close>. The binary search tree
  of the program is a datatype, every function that returns the (possibly new) root
  pointer is a function from trees to trees, and the console operations take what they
  read from the keyboard as arguments and return the tree together with what they report.
\<close>

subsection \<open>Data structures\<close>

text \<open>\<^verbatim>\<open>enum NodeType\<close>.\<close>

datatype NodeType = EVENT_NODE | TICKET_NODE

text \<open>\<^verbatim>\<open>struct Event\<close> and \<^verbatim>\<open>struct Ticket\<close>. The character buffers are strings; the
  integer codes are never used in arithmetic, so they are plain integers.\<close>

record Event =
  date :: string
  time :: string
  code :: int
  title :: string

record Ticket =
  seat :: string
  afm :: string
  firstName :: string
  lastName :: string
  eventCode :: int

text \<open>
  The tag \<^verbatim>\<open>type\<close> and the union \<^verbatim>\<open>data\<close> of a node form one tagged value: the
  program writes them together (in \<^verbatim>\<open>createNode\<close> and in the two-children case of
  \<^verbatim>\<open>deleteNode\<close>) and reads a member of the union only after testing the tag.
\<close>

datatype NodeData = EventData Event | TicketData Ticket

fun nodeType :: "NodeData \<Rightarrow> NodeType" where
  "nodeType (EventData e) = EVENT_NODE"
| "nodeType (TicketData t) = TICKET_NODE"

text \<open>\<^verbatim>\<open>struct TreeNode\<close>; a pointer to a node is the subtree it roots, \<^verbatim>\<open>NULL\<close> the
  empty tree.\<close>

datatype TreeNode =
    NULL
  | Node (key: string) (data: NodeData) (left: TreeNode) (right: TreeNode)

subsection \<open>String comparison\<close>

text \<open>\<^verbatim>\<open>strcmp\<close> of the C library compares two strings byte by byte, as unsigned
  characters, a proper prefix being the smaller. The C standard fixes only the sign of
  the result, and the program tests only the sign: the model returns -1, 0 or 1.\<close>

fun strcmp :: "string \<Rightarrow> string \<Rightarrow> int" where
  "strcmp [] [] = 0"
| "strcmp [] (y # ys) = - 1"
| "strcmp (x # xs) [] = 1"
| "strcmp (x # xs) (y # ys) =
     (if x = y then strcmp xs ys
      else if (of_char x :: nat) < of_char y then - 1 else 1)"

subsection \<open>Tree management functions\<close>

text \<open>
  \<^verbatim>\<open>createNode\<close>, \<^verbatim>\<open>insertNode\<close>: the arguments \<^verbatim>\<open>type\<close> and \<^verbatim>\<open>data\<close>, a tag and a pointer to
  the record of that tag, are the one tagged value \<open>d\<close>. Allocation is taken to succeed
  (the program exits when it does not). \<^verbatim>\<open>strcpy\<close> copies the key into a buffer of 20
  bytes; the keys the program builds have at most 18 characters.
\<close>

definition createNode :: "string \<Rightarrow> NodeData \<Rightarrow> TreeNode" where
  "createNode k d = Node k d NULL NULL"

fun insertNode :: "TreeNode \<Rightarrow> string \<Rightarrow> NodeData \<Rightarrow> TreeNode" where
  "insertNode NULL k d = createNode k d"
| "insertNode (Node rk rd l r) k d =
     (let cmp = strcmp k rk in
      if cmp < 0 then Node rk rd (insertNode l k d) r
      else if cmp > 0 then Node rk rd l (insertNode r k d)
      else Node rk rd l r)"

fun searchNode :: "TreeNode \<Rightarrow> string \<Rightarrow> TreeNode" where
  "searchNode NULL k = NULL"
| "searchNode (Node rk rd l r) k =
     (if strcmp rk k = 0 then Node rk rd l r
      else if strcmp k rk < 0 then searchNode l k
      else searchNode r k)"

fun findMin :: "TreeNode \<Rightarrow> TreeNode" where
  "findMin NULL = NULL"
| "findMin (Node k d l r) = (if l \<noteq> NULL then findMin l else Node k d l r)"

fun deleteNode :: "TreeNode \<Rightarrow> string \<Rightarrow> TreeNode" where
  "deleteNode NULL k = NULL"
| "deleteNode (Node rk rd l r) k =
     (let cmp = strcmp k rk in
      if cmp < 0 then Node rk rd (deleteNode l k) r
      else if cmp > 0 then Node rk rd l (deleteNode r k)
      else if l = NULL then r
      else if r = NULL then l
      else (let temp = findMin r in
            Node (key temp) (data temp) l (deleteNode r (key temp))))"

text \<open>
  \<^verbatim>\<open>inorderTraversalPrint\<close> writes one block per selected node to the console; the
  model returns the records printed, in the order they are printed.
\<close>

fun inorderTraversalPrint :: "TreeNode \<Rightarrow> NodeType \<Rightarrow> int \<Rightarrow> NodeData list" where
  "inorderTraversalPrint NULL filterType eventCodeFilter = []"
| "inorderTraversalPrint (Node k d l r) filterType eventCodeFilter =
     inorderTraversalPrint l filterType eventCodeFilter
     @ (if nodeType d = filterType then
          (if filterType = EVENT_NODE then [d]
           else if filterType = TICKET_NODE then
             (case d of
                TicketData t \<Rightarrow>
                  if eventCodeFilter = - 1 \<or> eventCode t = eventCodeFilter then [d] else []
              | EventData e \<Rightarrow> [])
           else [])
        else [])
     @ inorderTraversalPrint r filterType eventCodeFilter"

text \<open>
  \<^verbatim>\<open>collectTicketKeysForEvent\<close> appends to a growable array of \<^verbatim>\<open>count\<close> keys with room
  for \<^verbatim>\<open>capacity\<close>: the state is the list of the keys stored so far (its length is
  \<^verbatim>\<open>count\<close>) and the capacity, doubled when the array is full. Allocation is taken to
  succeed (the program exits when it does not).
\<close>

fun collectTicketKeysForEvent ::
  "TreeNode \<Rightarrow> int \<Rightarrow> string list \<times> nat \<Rightarrow> string list \<times> nat" where
  "collectTicketKeysForEvent NULL ec buf = buf"
| "collectTicketKeysForEvent (Node k d l r) ec buf =
     (let buf1 = collectTicketKeysForEvent l ec buf;
          buf2 = (case d of
                    TicketData t \<Rightarrow>
                      if eventCode t = ec then
                        (let (keys, capacity) = buf1;
                             capacity' = (if length keys \<ge> capacity then capacity * 2 else capacity)
                         in (keys @ [k], capacity'))
                      else buf1
                  | EventData e \<Rightarrow> buf1)
      in collectTicketKeysForEvent r ec buf2)"

subsection \<open>Helper functions\<close>

text \<open>
  \<^verbatim>\<open>getIntegerInput\<close>: the argument is what \<^verbatim>\<open>fgets\<close> and \<^verbatim>\<open>sscanf("%d")\<close> produced from the
  next line of input, \<open>Some value\<close> when an integer was read and \<open>None\<close> otherwise.
\<close>

definition getIntegerInput :: "int option \<Rightarrow> int" where
  "getIntegerInput scanned = (case scanned of Some v \<Rightarrow> v | None \<Rightarrow> - 1)"

text \<open>The conversion \<^verbatim>\<open>%d\<close> of \<^verbatim>\<open>sprintf\<close>: decimal digits, a minus sign for a negative
  number, no padding.\<close>

definition digit_char :: "nat \<Rightarrow> char" where
  "digit_char n = char_of (48 + n)"

fun dec_nat :: "nat \<Rightarrow> string" where
  "dec_nat n = (if n < 10 then [digit_char n] else dec_nat (n div 10) @ [digit_char (n mod 10)])"

declare dec_nat.simps [simp del]

definition fmt_d :: "int \<Rightarrow> string" where
  "fmt_d i = (if i < 0 then CHR ''-'' # dec_nat (nat (- i)) else dec_nat (nat i))"

text \<open>\<^verbatim>\<open>sprintf(key, "E_%d", code)\<close> and \<^verbatim>\<open>sprintf(key, "T_%d_%s", eventCode, seat)\<close>.\<close>

definition eventKey :: "int \<Rightarrow> string" where
  "eventKey c = ''E_'' @ fmt_d c"

definition ticketKey :: "int \<Rightarrow> string \<Rightarrow> string" where
  "ticketKey c s = ''T_'' @ fmt_d c @ ''_'' @ s"

text \<open>\<^verbatim>\<open>tolower\<close>, \<^verbatim>\<open>isspace\<close>, \<^verbatim>\<open>isdigit\<close> and \<^verbatim>\<open>atoi\<close> of the C library, in the C locale.
  \<^verbatim>\<open>atoi\<close> skips white space, reads an optional sign and then the longest run of digits;
  \<^verbatim>\<open>validateSeat\<close> calls it on at most three characters, so the value fits an
  \<^verbatim>\<open>int\<close>.\<close>

definition tolower :: "char \<Rightarrow> char" where
  "tolower c = (if CHR ''A'' \<le> c \<and> c \<le> CHR ''Z'' then char_of (of_char c + (32 :: nat)) else c)"

definition isspace :: "char \<Rightarrow> bool" where
  "isspace c = (c = CHR '' '' \<or> (9 :: nat) \<le> of_char c \<and> of_char c \<le> (13 :: nat))"

definition isdigit :: "char \<Rightarrow> bool" where
  "isdigit c = (CHR ''0'' \<le> c \<and> c \<le> CHR ''9'')"

fun atoi_digits :: "string \<Rightarrow> int \<Rightarrow> int" where
  "atoi_digits [] acc = acc"
| "atoi_digits (c # cs) acc =
     (if isdigit c then atoi_digits cs (acc * 10 + (int (of_char c) - 48)) else acc)"

definition atoi :: "string \<Rightarrow> int" where
  "atoi s =
     (case dropWhile isspace s of
        [] \<Rightarrow> 0
      | c # cs \<Rightarrow>
          if c = CHR ''-'' then - atoi_digits cs 0
          else if c = CHR ''+'' then atoi_digits cs 0
          else atoi_digits (c # cs) 0)"

text \<open>\<^verbatim>\<open>validateSeat\<close> returns 1 (here \<open>True\<close>) for a seat it accepts and 0 otherwise.\<close>

definition validateSeat :: "string \<Rightarrow> bool" where
  "validateSeat s =
     (if length s < 2 \<or> length s > 4 then False
      else let section = tolower (hd s) in
        if section < CHR ''a'' \<or> section > CHR ''h'' then False
        else let number = atoi (tl s) in
          if number < 1 \<or> number > 500 then False
          else True)"

subsection \<open>Event and ticket management functions\<close>

text \<open>
  Each operation reads its input from the keyboard as it goes and reports on the console.
  The model takes the values read as arguments (an operation that returns early does
  not look at the later ones) and returns the root pointer it leaves behind together
  with what it reported: the error of the \<^verbatim>\<open>(!)\<close> message printed, or the success.
  In \<^verbatim>\<open>removeEvent\<close> the loop over the collected keys is a left fold, and \<^verbatim>\<open>malloc\<close> is
  taken to succeed.
\<close>

datatype error =
    InvalidCode        \<comment> \<open>\<^verbatim>\<open>(!) Invalid code.\<close>\<close>
  | DuplicateKey       \<comment> \<open>\<^verbatim>\<open>(!) Error: An event with this code already exists.\<close>\<close>
  | UnknownEvent       \<comment> \<open>\<^verbatim>\<open>(!) Error: No event exists with code\<close>, \<^verbatim>\<open>(!) No event found with code\<close>\<close>
  | InvalidSeatFormat  \<comment> \<open>\<^verbatim>\<open>(!) Error: Invalid seat. Section 'a'-'h' and number 1-500.\<close>\<close>
  | SeatTaken          \<comment> \<open>\<^verbatim>\<open>(!) Error: Seat is already booked for this event.\<close>\<close>
  | NotFound           \<comment> \<open>\<^verbatim>\<open>(!) No booking found for seat\<close>\<close>

datatype success =
    EventAdded              \<comment> \<open>\<^verbatim>\<open>-> Event added successfully.\<close>\<close>
  | EventRemoved nat        \<comment> \<open>\<^verbatim>\<open>-> Deleting %d tickets\<close>, then \<^verbatim>\<open>-> Event ... deleted.\<close>\<close>
  | TicketIssued            \<comment> \<open>\<^verbatim>\<open>-> Ticket for seat issued successfully.\<close>\<close>
  | Listed "NodeData list"  \<comment> \<open>the records printed by a search or a listing\<close>

definition addEvent ::
  "TreeNode \<Rightarrow> int option \<Rightarrow> string \<Rightarrow> string \<Rightarrow> string \<Rightarrow> TreeNode \<times> (error + success)" where
  "addEvent root scanned title_in date_in time_in =
     (let c = getIntegerInput scanned in
      if c < 0 then (root, Inl InvalidCode)
      else let k = eventKey c in
        if searchNode root k \<noteq> NULL then (root, Inl DuplicateKey)
        else (insertNode root k
                (EventData \<lparr>date = date_in, time = time_in, code = c, title = title_in\<rparr>),
              Inr EventAdded))"

definition findEvent :: "TreeNode \<Rightarrow> int option \<Rightarrow> error + success" where
  "findEvent root scanned =
     (let c = getIntegerInput scanned in
      if c < 0 then Inl InvalidCode
      else let result = searchNode root (eventKey c) in
        if result \<noteq> NULL then Inr (Listed (inorderTraversalPrint result EVENT_NODE (- 1)))
        else Inl UnknownEvent)"

definition removeEvent :: "TreeNode \<Rightarrow> int option \<Rightarrow> TreeNode \<times> (error + success)" where
  "removeEvent root scanned =
     (let c = getIntegerInput scanned in
      if c < 0 then (root, Inl InvalidCode)
      else let k = eventKey c in
        if searchNode root k = NULL then (root, Inl UnknownEvent)
        else let (keysToDelete, capacity) = collectTicketKeysForEvent root c ([], 10);
                 root1 = foldl deleteNode root keysToDelete;
                 root2 = deleteNode root1 k
             in (root2, Inr (EventRemoved (length keysToDelete))))"

definition printEvents :: "TreeNode \<Rightarrow> error + success" where
  "printEvents root = Inr (Listed (inorderTraversalPrint root EVENT_NODE (- 1)))"

definition addTicket ::
  "TreeNode \<Rightarrow> int option \<Rightarrow> string \<Rightarrow> string \<Rightarrow> string \<Rightarrow> string \<Rightarrow>
   TreeNode \<times> (error + success)" where
  "addTicket root scanned seat_in afm_in first_in last_in =
     (let c = getIntegerInput scanned in
      if c < 0 then (root, Inl InvalidCode)
      else if searchNode root (eventKey c) = NULL then (root, Inl UnknownEvent)
      else if \<not> validateSeat seat_in then (root, Inl InvalidSeatFormat)
      else let k = ticketKey c seat_in in
        if searchNode root k \<noteq> NULL then (root, Inl SeatTaken)
        else (insertNode root k
                (TicketData \<lparr>seat = seat_in, afm = afm_in, firstName = first_in,
                             lastName = last_in, eventCode = c\<rparr>),
              Inr TicketIssued))"

definition findTicket :: "TreeNode \<Rightarrow> int option \<Rightarrow> string \<Rightarrow> error + success" where
  "findTicket root scanned seat_in =
     (let c = getIntegerInput scanned in
      if c < 0 then Inl InvalidCode
      else let result = searchNode root (ticketKey c seat_in) in
        if result \<noteq> NULL then Inr (Listed (inorderTraversalPrint result TICKET_NODE c))
        else Inl NotFound)"

definition printTicketsForEvent :: "TreeNode \<Rightarrow> int option \<Rightarrow> error + success" where
  "printTicketsForEvent root scanned =
     (let c = getIntegerInput scanned in
      if c < 0 then Inl InvalidCode
      else if searchNode root (eventKey c) = NULL then Inl UnknownEvent
      else Inr (Listed (inorderTraversalPrint root TICKET_NODE c)))"

subsection \<open>Observing a tree\<close>

text \<open>
  The entries of a tree in in-order (left subtree, node, right subtree), its keys in the
  same order, and the payload of the node a search returns.
\<close>

fun entries :: "TreeNode \<Rightarrow> (string \<times> NodeData) list" where
  "entries NULL = []"
| "entries (Node k d l r) = entries l @ (k, d) # entries r"

definition keys :: "TreeNode \<Rightarrow> string list" where
  "keys t = map fst (entries t)"

fun payloadAt :: "TreeNode \<Rightarrow> NodeData option" where
  "payloadAt NULL = None"
| "payloadAt (Node k d l r) = Some d"

text \<open>
  The strict binary-search-tree property: at every node the keys of the left subtree
  compare less than the node's key and the keys of the right subtree compare greater.
\<close>

fun bst :: "TreeNode \<Rightarrow> bool" where
  "bst NULL = True"
| "bst (Node k d l r) =
     ((\<forall>x \<in> set (keys l). strcmp x k < 0) \<and> (\<forall>x \<in> set (keys r). strcmp x k > 0)
      \<and> bst l \<and> bst r)"

subsection \<open>Sequences of index operations\<close>

text \<open>The two operations that change the index, and a sequence of them applied in turn.\<close>

datatype IndexOp = Insert string NodeData | Delete string

fun applyOp :: "TreeNode \<Rightarrow> IndexOp \<Rightarrow> TreeNode" where
  "applyOp t (Insert k d) = insertNode t k d"
| "applyOp t (Delete k) = deleteNode t k"

subsection \<open>Sample records\<close>

text \<open>Records for the worked examples that follow the theorems.\<close>

definition sampleEvent :: "int \<Rightarrow> NodeData" where
  "sampleEvent c =
     EventData \<lparr>date = ''01/01/2025'', time = ''10:00'', code = c, title = ''Yoga''\<rparr>"

definition sampleTicket :: "int \<Rightarrow> string \<Rightarrow> NodeData" where
  "sampleTicket c s =
     TicketData \<lparr>seat = s, afm = ''123456789'', firstName = ''Ada'', lastName = ''Byron'',
                 eventCode = c\<rparr>"

text \<open>A tree with four events and three tickets; the root has two children.\<close>

definition sampleTree :: TreeNode where
  "sampleTree = foldl applyOp NULL
     [Insert ''E_5'' (sampleEvent 5), Insert ''E_3'' (sampleEvent 3),
      Insert ''E_7'' (sampleEvent 7), Insert ''E_6'' (sampleEvent 6),
      Insert ''T_5_a1'' (sampleTicket 5 ''a1''), Insert ''T_5_b2'' (sampleTicket 5 ''b2''),
      Insert ''T_7_a1'' (sampleTicket 7 ''a1'')]"

subsection \<open>The menus\<close>

text \<open>
  \<^verbatim>\<open>main\<close>, \<^verbatim>\<open>eventMenu\<close> and \<^verbatim>\<open>ticketMenu\<close> start from the empty tree and run the chosen
  operations one after the other on the same root pointer. A command is an operation with
  its input; a session is a list of commands.
\<close>

datatype command =
    AddEvent "int option" string string string
  | FindEvent "int option"
  | RemoveEvent "int option"
  | PrintEvents
  | AddTicket "int option" string string string string
  | FindTicket "int option" string
  | PrintTicketsForEvent "int option"

fun runCommand :: "TreeNode \<Rightarrow> command \<Rightarrow> TreeNode" where
  "runCommand root (AddEvent scanned title_in date_in time_in) =
     fst (addEvent root scanned title_in date_in time_in)"
| "runCommand root (FindEvent scanned) = root"
| "runCommand root (RemoveEvent scanned) = fst (removeEvent root scanned)"
| "runCommand root PrintEvents = root"
| "runCommand root (AddTicket scanned seat_in afm_in first_in last_in) =
     fst (addTicket root scanned seat_in afm_in first_in last_in)"
| "runCommand root (FindTicket scanned seat_in) = root"
| "runCommand root (PrintTicketsForEvent scanned) = root"

text \<open>A record is a ticket of the event with code \<open>c\<close>: the test of
  \<^verbatim>\<open>collectTicketKeysForEvent\<close>.\<close>

definition ticketOf :: "int \<Rightarrow> NodeData \<Rightarrow> bool" where
  "ticketOf c d = (case d of TicketData t \<Rightarrow> eventCode t = c | EventData e \<Rightarrow> False)"

text \<open>A session in which three commands carry a negative or unreadable event code.\<close>

definition sampleSession :: "command list" where
  "sampleSession =
     [AddEvent (Some 5) ''Yoga'' ''01/01/2025'' ''10:00'',
      AddEvent (Some (- 3)) ''Judo'' ''02/01/2025'' ''11:00'',
      AddEvent None ''Polo'' ''03/01/2025'' ''12:00'',
      AddTicket (Some 5) ''a1'' ''123456789'' ''Ada'' ''Byron'',
      AddTicket (Some (- 3)) ''a2'' ''123456789'' ''Ada'' ''Byron'',
      RemoveEvent (Some (- 3))]"

subsection \<open>Keys the catalog can build\<close>

text \<open>The keys \<^verbatim>\<open>addEvent\<close> and \<^verbatim>\<open>addTicket\<close> build from a code that passed their test
  \<^verbatim>\<open>code < 0\<close>, and the trees whose keys are all of this kind.\<close>

definition goodKey :: "string \<Rightarrow> bool" where
  "goodKey k = (\<exists>c s. 0 \<le> c \<and> (k = eventKey c \<or> k = ticketKey c s))"

definition catalogInv :: "TreeNode \<Rightarrow> bool" where
  "catalogInv t = (bst t \<and> (\<forall>k \<in> set (keys t). goodKey k))"

subsection \<open>The seat format as the specification words it\<close>

text \<open>
  A seat is valid when it has two to four characters, the first is one of the letters a
  to h in either case, and the remaining characters are decimal digits that denote a
  number from 1 to 500.
\<close>

definition decimal :: "string \<Rightarrow> int" where
  "decimal ds = foldl (\<lambda>acc c. acc * 10 + (int (of_char c) - 48)) 0 ds"

definition spec_validSeat :: "string \<Rightarrow> bool" where
  "spec_validSeat s =
     (2 \<le> length s \<and> length s \<le> 4
      \<and> hd s \<in> set ''abcdefghABCDEFGH''
      \<and> list_all isdigit (tl s)
      \<and> 1 \<le> decimal (tl s) \<and> decimal (tl s) \<le> 500)"

subsection \<open>The tree in memory\<close>

text \<open>
  For the operations that only read the tree, a second model keeps the nodes in a store:
  a pointer is \<open>None\<close> (the null pointer) or the address of a node, a node holds its
  key, its tagged payload and the pointers to its children, and every function takes the
  store and returns it with its result. The result is \<open>None\<close> when the function does not
  return: a pointer that is neither null nor the address of a node, or a descent that
  never ends. The key buffer of \<^verbatim>\<open>collectTicketKeysForEvent\<close> and the console are not
  part of the store: the buffer is memory that \<^verbatim>\<open>malloc\<close>, \<^verbatim>\<open>realloc\<close> and \<^verbatim>\<open>strdup\<close>
  hand out, apart from every node.
\<close>

type_synonym addr = nat
type_synonym ptr = "addr option"

datatype cell = Cell (ckey: string) (cdata: NodeData) (cleft: ptr) (cright: ptr)

type_synonym heap = "addr \<Rightarrow> cell option"

text \<open>The store holds the tree \<open>t\<close> at the pointer \<open>p\<close>.\<close>

fun tree_at :: "heap \<Rightarrow> ptr \<Rightarrow> TreeNode \<Rightarrow> bool" where
  "tree_at h p NULL = (p = None)"
| "tree_at h p (Node k d l r) =
     (case p of
        None \<Rightarrow> False
      | Some a \<Rightarrow>
          (case h a of
             None \<Rightarrow> False
           | Some c \<Rightarrow> ckey c = k \<and> cdata c = d \<and> tree_at h (cleft c) l \<and> tree_at h (cright c) r))"

partial_function (option) searchNode_h :: "heap \<Rightarrow> ptr \<Rightarrow> string \<Rightarrow> (ptr \<times> heap) option" where
  "searchNode_h h root k =
     (case root of
        None \<Rightarrow> Some (root, h)
      | Some a \<Rightarrow>
          (case h a of
             None \<Rightarrow> None
           | Some c \<Rightarrow>
               if strcmp (ckey c) k = 0 then Some (root, h)
               else if strcmp k (ckey c) < 0 then searchNode_h h (cleft c) k
               else searchNode_h h (cright c) k))"

partial_function (option) findMin_h :: "heap \<Rightarrow> ptr \<Rightarrow> (ptr \<times> heap) option" where
  "findMin_h h current =
     (case current of
        None \<Rightarrow> Some (current, h)
      | Some a \<Rightarrow>
          (case h a of
             None \<Rightarrow> None
           | Some c \<Rightarrow>
               if cleft c \<noteq> None then findMin_h h (cleft c)
               else Some (current, h)))"

partial_function (option) inorderTraversalPrint_h ::
  "heap \<Rightarrow> ptr \<Rightarrow> NodeType \<Rightarrow> int \<Rightarrow> NodeData list \<Rightarrow> (NodeData list \<times> heap) option" where
  "inorderTraversalPrint_h h root filterType eventCodeFilter out =
     (case root of
        None \<Rightarrow> Some (out, h)
      | Some a \<Rightarrow>
          (case h a of
             None \<Rightarrow> None
           | Some c0 \<Rightarrow>
               Option.bind (inorderTraversalPrint_h h (cleft c0) filterType eventCodeFilter out)
                 (\<lambda>(out1, h1).
                    case h1 a of
                      None \<Rightarrow> None
                    | Some c \<Rightarrow>
                        inorderTraversalPrint_h h1 (cright c) filterType eventCodeFilter
                          (out1 @
                            (if nodeType (cdata c) = filterType then
                               (if filterType = EVENT_NODE then [cdata c]
                                else if filterType = TICKET_NODE then
                                  (case cdata c of
                                     TicketData t \<Rightarrow>
                                       if eventCodeFilter = - 1 \<or> eventCode t = eventCodeFilter
                                       then [cdata c] else []
                                   | EventData e \<Rightarrow> [])
                                else [])
                             else [])))))"

partial_function (option) collectTicketKeysForEvent_h ::
  "heap \<Rightarrow> ptr \<Rightarrow> int \<Rightarrow> string list \<times> nat \<Rightarrow> ((string list \<times> nat) \<times> heap) option" where
  "collectTicketKeysForEvent_h h root ec buf =
     (case root of
        None \<Rightarrow> Some (buf, h)
      | Some a \<Rightarrow>
          (case h a of
             None \<Rightarrow> None
           | Some c0 \<Rightarrow>
               Option.bind (collectTicketKeysForEvent_h h (cleft c0) ec buf)
                 (\<lambda>(buf1, h1).
                    case h1 a of
                      None \<Rightarrow> None
                    | Some c \<Rightarrow>
                        collectTicketKeysForEvent_h h1 (cright c) ec
                          (case cdata c of
                             TicketData t \<Rightarrow>
                               if eventCode t = ec then
                                 (let (keys, capacity) = buf1;
                                      capacity' = (if length keys \<ge> capacity then capacity * 2
                                                   else capacity)
                                  in (keys @ [ckey c], capacity'))
                               else buf1
                           | EventData e \<Rightarrow> buf1))))"

text \<open>A store of three nodes and the tree it holds at address 1.\<close>

definition sampleHeap :: heap where
  "sampleHeap =
     [1 \<mapsto> Cell ''E_5'' (sampleEvent 5) (Some 2) (Some 3),
      2 \<mapsto> Cell ''E_3'' (sampleEvent 3) None None,
      3 \<mapsto> Cell ''T_5_a1'' (sampleTicket 5 ''a1'') None None]"

definition smallTree :: TreeNode where
  "smallTree =
     Node ''E_5'' (sampleEvent 5)
       (Node ''E_3'' (sampleEvent 3) NULL NULL)
       (Node ''T_5_a1'' (sampleTicket 5 ''a1'') NULL NULL)"

section \<open>Properties\<close>

subsection \<open>String comparison is the lexicographic order\<close>

lemma strcmp_eq0: "strcmp a b = 0 \<longleftrightarrow> a = b"
  by (induction a b rule: strcmp.induct) (auto simp flip: less_char_def)

lemma strcmp_less: "strcmp a b < 0 \<longleftrightarrow> a < b"
  by (induction a b rule: strcmp.induct) (auto simp flip: less_char_def)

lemma strcmp_greater: "strcmp a b > 0 \<longleftrightarrow> b < a"
  by (induction a b rule: strcmp.induct) (auto simp flip: less_char_def)

subsection \<open>Entries, keys and the search-tree property\<close>

lemma keys_simps [simp]: "keys NULL = []" "keys (Node k d l r) = keys l @ k # keys r"
  by (simp_all add: keys_def)

lemma keys_eq: "set (keys t) = fst ` set (entries t)"
  by (simp add: keys_def)

lemma entries_NULL: "entries t = [] \<longleftrightarrow> t = NULL"
  by (cases t) auto

lemma bst_sorted: "bst t \<longleftrightarrow> sorted_wrt (<) (keys t)"
  by (induction t) (auto simp: sorted_wrt_append strcmp_less strcmp_greater intro: less_trans)

lemma bst_NodeD:
  assumes "bst (Node rk rd l r)"
  shows "\<forall>x\<in>set (keys l). x < rk" and "\<forall>x\<in>set (keys r). rk < x" and "bst l" and "bst r"
  using assms by (auto simp: strcmp_less strcmp_greater)

subsection \<open>Search\<close>

lemma search_map_of: "bst t \<Longrightarrow> payloadAt (searchNode t k) = map_of (entries t) k"
proof (induction t)
  case NULL
  then show ?case by simp
next
  case (Node rk rd l r)
  note b = bst_NodeD [OF Node.prems]
  show ?case
  proof (cases "k = rk")
    case True
    then have "k \<notin> set (keys l)" using b(1) by auto
    then have "map_of (entries l) k = None" by (simp add: keys_eq map_of_eq_None_iff)
    with True show ?thesis by (simp add: strcmp_eq0 map_add_def)
  next
    case False
    show ?thesis
    proof (cases "k < rk")
      case True
      then have "k \<notin> set (keys r)" using b(2) by (auto dest: less_asym)
      then have "map_of (entries r) k = None" by (simp add: keys_eq map_of_eq_None_iff)
      with True False Node.IH(1) b(3) show ?thesis
        by (auto simp: strcmp_eq0 strcmp_less map_add_def split: option.split)
    next
      case nl: False
      with False have "rk < k" by auto
      then have "k \<notin> set (keys l)" using b(1) by (auto dest: less_asym)
      then have "map_of (entries l) k = None" by (simp add: keys_eq map_of_eq_None_iff)
      with nl False Node.IH(2) b(4) show ?thesis
        by (auto simp: strcmp_eq0 strcmp_less map_add_def split: option.split)
    qed
  qed
qed

lemma payloadAt_None: "payloadAt t = None \<longleftrightarrow> t = NULL"
  by (cases t) auto

lemma search_NULL_iff: "bst t \<Longrightarrow> searchNode t k = NULL \<longleftrightarrow> k \<notin> set (keys t)"
  using search_map_of [of t k] payloadAt_None [of "searchNode t k"]
  by (simp add: keys_eq map_of_eq_None_iff)

subsection \<open>The minimum of a subtree\<close>

lemma findMin_not_NULL: "t \<noteq> NULL \<Longrightarrow> findMin t \<noteq> NULL"
  by (induction t) auto

lemma findMin_first: "t \<noteq> NULL \<Longrightarrow> hd (entries t) = (key (findMin t), data (findMin t))"
  by (induction t) (auto simp: hd_append entries_NULL)

lemma findMin_hd:
  "t \<noteq> NULL \<Longrightarrow> entries t = (key (findMin t), data (findMin t)) # tl (entries t)"
  using findMin_first [of t] entries_NULL [of t] by (cases "entries t") auto

subsection \<open>Insertion\<close>

lemma keys_insertNode: "set (keys (insertNode t k d)) = insert k (set (keys t))"
  by (induction t) (auto simp: createNode_def Let_def strcmp_less strcmp_greater)

lemma bst_insertNode: "bst t \<Longrightarrow> bst (insertNode t k d)"
  by (induction t)
    (auto simp: createNode_def Let_def keys_insertNode strcmp_less strcmp_greater)

subsection \<open>Deletion\<close>

lemma filter_all_ne: "\<forall>p\<in>set xs. fst p \<noteq> k \<Longrightarrow> filter (\<lambda>p. fst p \<noteq> k) xs = xs"
  by (induction xs) auto

lemma entries_deleteNode:
  "bst t \<Longrightarrow> entries (deleteNode t k) = filter (\<lambda>p. fst p \<noteq> k) (entries t)"
proof (induction t arbitrary: k)
  case NULL
  then show ?case by simp
next
  case (Node rk rd l r)
  note b = bst_NodeD [OF Node.prems]
  have fr: "k \<le> rk \<Longrightarrow> filter (\<lambda>p. fst p \<noteq> k) (entries r) = entries r"
    using b(2) by (intro filter_all_ne) (auto simp: keys_eq)
  have fl: "rk \<le> k \<Longrightarrow> filter (\<lambda>p. fst p \<noteq> k) (entries l) = entries l"
    using b(1) by (intro filter_all_ne) (auto simp: keys_eq)
  consider (lt) "k < rk" | (gt) "rk < k" | (eq) "k = rk"
    by fastforce
  then show ?case
  proof cases
    case lt
    then show ?thesis
      using Node.IH(1) [OF b(3)] fr by (simp add: Let_def strcmp_less)
  next
    case gt
    then have "\<not> k < rk" by auto
    then show ?thesis
      using gt Node.IH(2) [OF b(4)] fl by (simp add: Let_def strcmp_less strcmp_greater)
  next
    case eq
    show ?thesis
    proof (cases "l = NULL \<or> r = NULL")
      case True
      then show ?thesis
        using eq fl fr by (auto simp: Let_def strcmp_less strcmp_greater)
    next
      case False
      then have rn: "r \<noteq> NULL" and ln: "l \<noteq> NULL" by auto
      let ?m = "findMin r"
      from findMin_hd [OF rn]
      have er: "entries r = (key ?m, data ?m) # tl (entries r)" .
      have "sorted_wrt (<) (keys r)" using b(4) by (simp add: bst_sorted)
      then have "sorted_wrt (<) (key ?m # map fst (tl (entries r)))"
        by (subst (asm) keys_def, subst (asm) er) simp
      then have "\<forall>p\<in>set (tl (entries r)). fst p \<noteq> key ?m" by auto
      then have "filter (\<lambda>p. fst p \<noteq> key ?m) (tl (entries r)) = tl (entries r)"
        by (rule filter_all_ne)
      then have "filter (\<lambda>p. fst p \<noteq> key ?m) (entries r) = tl (entries r)"
        by (subst er) simp
      with Node.IH(2) [OF b(4), of "key ?m"]
      have "entries (deleteNode r (key ?m)) = tl (entries r)" by simp
      then have "entries (deleteNode (Node rk rd l r) k) = entries l @ entries r"
        using eq rn ln er by (simp add: Let_def strcmp_less strcmp_greater)
      then show ?thesis using eq fl fr by simp
    qed
  qed
qed

lemma keys_deleteNode: "bst t \<Longrightarrow> keys (deleteNode t k) = filter (\<lambda>x. x \<noteq> k) (keys t)"
  by (simp add: keys_def entries_deleteNode filter_map comp_def)

lemma bst_deleteNode: "bst t \<Longrightarrow> bst (deleteNode t k)"
  by (simp add: bst_sorted keys_deleteNode sorted_wrt_filter)

lemma map_of_deleteNode:
  "bst t \<Longrightarrow> map_of (entries (deleteNode t k)) = (map_of (entries t)) (k := None)"
proof -
  have "map_of (filter (\<lambda>p. fst p \<noteq> k) xs) = (map_of xs) (k := None)"
    for xs :: "(string \<times> NodeData) list"
    by (induction xs) auto
  then show "bst t \<Longrightarrow> ?thesis" by (simp add: entries_deleteNode)
qed

subsection \<open>More on search, insertion and deletion\<close>

lemma bst_distinct: "bst t \<Longrightarrow> distinct (keys t)"
  by (simp add: bst_sorted strict_sorted_iff)

lemma searchNode_key: "searchNode t k = Node k' d l r \<Longrightarrow> k' = k"
  by (induction t) (auto simp: strcmp_eq0 split: if_splits)

lemma searchNode_in_keys: "searchNode t k \<noteq> NULL \<Longrightarrow> k \<in> set (keys t)"
  by (induction t) (auto simp: strcmp_eq0 split: if_splits)

lemma bst_searchNode: "bst t \<Longrightarrow> bst (searchNode t k)"
  by (induction t) auto

lemma searchNode_entry:
  assumes "bst t" and "(k, d) \<in> set (entries t)"
  shows "payloadAt (searchNode t k) = Some d"
proof -
  have "distinct (map fst (entries t))"
    using bst_distinct [OF assms(1)] by (simp add: keys_def)
  with assms(2) show ?thesis by (simp add: search_map_of [OF assms(1)])
qed

lemma deleteNode_absent: "searchNode t k = NULL \<Longrightarrow> deleteNode t k = t"
  by (induction t)
    (auto simp: Let_def strcmp_eq0 strcmp_less strcmp_greater split: if_splits)

lemma insertNode_found: "searchNode t k \<noteq> NULL \<Longrightarrow> insertNode t k d = t"
  by (induction t)
    (auto simp: Let_def strcmp_eq0 strcmp_less strcmp_greater split: if_splits)

lemma insertNode_search_absent:
  "searchNode t k = NULL \<Longrightarrow> searchNode (insertNode t k d) k = createNode k d"
  by (induction t)
    (auto simp: Let_def createNode_def strcmp_eq0 strcmp_less strcmp_greater split: if_splits)

lemma bst_applyOp: "bst t \<Longrightarrow> bst (applyOp t op)"
  by (cases op) (simp_all add: bst_insertNode bst_deleteNode)

lemma bst_foldl_applyOp: "bst t \<Longrightarrow> bst (foldl applyOp t ops)"
  by (induction ops arbitrary: t) (simp_all add: bst_applyOp)

lemma keys_hd_findMin: "r \<noteq> NULL \<Longrightarrow> keys r = key (findMin r) # tl (keys r)"
  using findMin_hd [of r] by (cases "entries r") (auto simp: keys_def)

lemma searchNode_absent: "k \<notin> set (keys t) \<Longrightarrow> searchNode t k = NULL"
  using searchNode_in_keys by blast

subsection \<open>The sample tree\<close>

lemma sampleTree_eq:
  "sampleTree =
     Node ''E_5'' (sampleEvent 5)
       (Node ''E_3'' (sampleEvent 3) NULL NULL)
       (Node ''E_7'' (sampleEvent 7)
          (Node ''E_6'' (sampleEvent 6) NULL NULL)
          (Node ''T_5_a1'' (sampleTicket 5 ''a1'') NULL
             (Node ''T_5_b2'' (sampleTicket 5 ''b2'') NULL
                (Node ''T_7_a1'' (sampleTicket 7 ''a1'') NULL NULL))))"
  by (simp add: sampleTree_def createNode_def)

lemma bst_sampleTree: "bst sampleTree"
  by (simp add: sampleTree_eq)

subsection \<open>Collecting and deleting the tickets of an event\<close>

lemma collect_fst:
  "fst (collectTicketKeysForEvent t c buf)
     = fst buf @ map fst (filter (\<lambda>p. ticketOf c (snd p)) (entries t))"
proof (induction t arbitrary: buf)
  case NULL
  then show ?case by simp
next
  case (Node k d l r)
  show ?case
    by (cases d) (simp_all add: Let_def split_beta Node.IH ticketOf_def)
qed

lemma foldl_deleteNode:
  "bst t \<Longrightarrow> bst (foldl deleteNode t ks)
     \<and> map_of (entries (foldl deleteNode t ks)) k
         = (if k \<in> set ks then None else map_of (entries t) k)"
proof (induction ks arbitrary: t)
  case Nil
  then show ?case by simp
next
  case (Cons a ks)
  have b: "bst (deleteNode t a)" using Cons.prems by (rule bst_deleteNode)
  from Cons.IH [OF b] show ?case
    by (simp add: map_of_deleteNode [OF Cons.prems])
qed

lemma removeEvent_eq:
  assumes "0 \<le> c" and "searchNode root (eventKey c) \<noteq> NULL"
  shows "removeEvent root (Some c) =
    (deleteNode (foldl deleteNode root (fst (collectTicketKeysForEvent root c ([], 10)))) (eventKey c),
     Inr (EventRemoved (length (fst (collectTicketKeysForEvent root c ([], 10))))))"
  using assms by (simp add: removeEvent_def getIntegerInput_def Let_def split_beta)

lemma eventKey_5: "eventKey 5 = ''E_5''"
  by (simp add: eventKey_def fmt_d_def dec_nat.simps digit_char_def char_of_eq_iff)

subsection \<open>Evaluating keys and seats\<close>

lemmas key_eval = eventKey_def ticketKey_def fmt_d_def dec_nat.simps digit_char_def char_of_eq_iff

lemmas seat_eval = validateSeat_def tolower_def atoi_def isspace_def isdigit_def
  less_char_def less_eq_char_def Let_def

lemma sampleSession_keys: "keys (foldl runCommand NULL sampleSession) = [''E_5'', ''T_5_a1'']"
  by (simp add: sampleSession_def addEvent_def addTicket_def removeEvent_def getIntegerInput_def
      createNode_def key_eval seat_eval)

subsection \<open>Keys of negative codes\<close>

lemma dec_nat_not_Nil: "dec_nat n \<noteq> []"
  by (subst dec_nat.simps) simp

lemma digit_char_not_minus: "n < 10 \<Longrightarrow> digit_char n \<noteq> CHR ''-''"
proof
  assume n: "n < 10" and "digit_char n = CHR ''-''"
  then have "(of_char (digit_char n) :: nat) = of_char CHR ''-''" by simp
  then show False using n by (simp add: digit_char_def)
qed

lemma hd_dec_nat: "hd (dec_nat n) \<noteq> CHR ''-''"
proof (induction n rule: dec_nat.induct)
  case (1 n)
  show ?case
  proof (cases "n < 10")
    case True
    then show ?thesis by (subst dec_nat.simps) (simp add: digit_char_not_minus)
  next
    case False
    with 1 show ?thesis by (subst dec_nat.simps) (simp add: hd_append dec_nat_not_Nil)
  qed
qed

lemma fmt_d_not_Nil: "fmt_d c \<noteq> []"
  by (simp add: fmt_d_def dec_nat_not_Nil)

lemma hd_fmt_d: "hd (fmt_d c) = CHR ''-'' \<longleftrightarrow> c < 0"
  by (simp add: fmt_d_def hd_dec_nat)

lemma goodKey_not_negative:
  assumes "goodKey k" and "c < 0"
  shows "k \<noteq> eventKey c" and "k \<noteq> ticketKey c s"
proof -
  from assms(1) obtain c' s' where c': "0 \<le> c'" and k: "k = eventKey c' \<or> k = ticketKey c' s'"
    by (auto simp: goodKey_def)
  have h: "hd (fmt_d c') \<noteq> hd (fmt_d c)" using c' assms(2) hd_fmt_d [of c] hd_fmt_d [of c'] by auto
  have h2: "hd (fmt_d c' @ x) \<noteq> hd (fmt_d c @ y)" for x y
    using h by (simp add: hd_append fmt_d_not_Nil)
  show "k \<noteq> eventKey c"
    using k h by (auto simp: eventKey_def ticketKey_def)
  show "k \<noteq> ticketKey c s"
  proof
    assume e: "k = ticketKey c s"
    from k show False
    proof
      assume "k = eventKey c'"
      with e show False by (simp add: eventKey_def ticketKey_def)
    next
      assume "k = ticketKey c' s'"
      with e have "fmt_d c' @ CHR ''_'' # s' = fmt_d c @ CHR ''_'' # s"
        by (simp add: ticketKey_def)
      with h2 [of "CHR ''_'' # s'" "CHR ''_'' # s"] show False by simp
    qed
  qed
qed

lemma goodKey_eventKey: "0 \<le> c \<Longrightarrow> goodKey (eventKey c)"
  by (auto simp: goodKey_def)

lemma goodKey_ticketKey: "0 \<le> c \<Longrightarrow> goodKey (ticketKey c s)"
  by (auto simp: goodKey_def)

lemma keys_foldl_deleteNode:
  "bst t \<Longrightarrow> set (keys (foldl deleteNode t ks)) \<subseteq> set (keys t)"
proof (induction ks arbitrary: t)
  case Nil
  then show ?case by simp
next
  case (Cons a ks)
  have "set (keys (foldl deleteNode (deleteNode t a) ks)) \<subseteq> set (keys (deleteNode t a))"
    using Cons.IH [OF bst_deleteNode [OF Cons.prems]] .
  then show ?case by (auto simp: keys_deleteNode [OF Cons.prems])
qed

lemma catalogInv_delete_all:
  assumes "catalogInv t"
  shows "catalogInv (deleteNode (foldl deleteNode t ks) k)"
proof -
  from assms have b: "bst t" and g: "\<forall>k \<in> set (keys t). goodKey k"
    by (simp_all add: catalogInv_def)
  have b1: "bst (foldl deleteNode t ks)" using foldl_deleteNode [OF b] by blast
  have "set (keys (deleteNode (foldl deleteNode t ks) k)) \<subseteq> set (keys (foldl deleteNode t ks))"
    by (auto simp: keys_deleteNode [OF b1])
  also have "\<dots> \<subseteq> set (keys t)" using b by (rule keys_foldl_deleteNode)
  finally have "\<forall>x \<in> set (keys (deleteNode (foldl deleteNode t ks) k)). goodKey x"
    using g by blast
  moreover have "bst (deleteNode (foldl deleteNode t ks) k)" using b1 by (rule bst_deleteNode)
  ultimately show ?thesis by (simp add: catalogInv_def)
qed

lemma catalogInv_runCommand: "catalogInv t \<Longrightarrow> catalogInv (runCommand t cmd)"
proof (cases cmd)
  case (AddEvent scanned ti da tm)
  assume "catalogInv t"
  then show ?thesis
    unfolding AddEvent
    by (auto simp: catalogInv_def addEvent_def Let_def bst_insertNode keys_insertNode goodKey_eventKey)
next
  case (RemoveEvent scanned)
  assume "catalogInv t"
  then show ?thesis
    unfolding RemoveEvent
    by (simp add: removeEvent_def Let_def split_beta catalogInv_delete_all)
next
  case (AddTicket scanned se af fi la)
  assume "catalogInv t"
  then show ?thesis
    unfolding AddTicket
    by (auto simp: catalogInv_def addTicket_def Let_def bst_insertNode keys_insertNode goodKey_ticketKey)
qed simp_all

lemma catalogInv_session: "catalogInv t \<Longrightarrow> catalogInv (foldl runCommand t cmds)"
  by (induction cmds arbitrary: t) (simp_all add: catalogInv_runCommand)

subsection \<open>Seats\<close>

lemma atoi_digits_decimal:
  "list_all isdigit ds \<Longrightarrow> atoi_digits ds acc = foldl (\<lambda>acc c. acc * 10 + (int (of_char c) - 48)) acc ds"
  by (induction ds arbitrary: acc) auto

lemma isdigit_not_space: "isdigit c \<Longrightarrow> \<not> isspace c \<and> c \<noteq> CHR ''-'' \<and> c \<noteq> CHR ''+''"
  by (auto simp: isdigit_def isspace_def less_eq_char_def)

lemma atoi_decimal: "list_all isdigit ds \<Longrightarrow> atoi ds = decimal ds"
proof (cases ds)
  case Nil
  then show ?thesis by (simp add: atoi_def decimal_def)
next
  case (Cons c cs)
  assume d: "list_all isdigit ds"
  with Cons have "isdigit c" by simp
  from isdigit_not_space [OF this] atoi_digits_decimal [OF d, of 0] Cons
  show ?thesis by (simp add: atoi_def decimal_def)
qed

lemma spec_validSeat_accepted: "spec_validSeat s \<Longrightarrow> validateSeat s"
proof -
  assume v: "spec_validSeat s"
  then have "hd s \<in> set ''abcdefghABCDEFGH''" by (simp add: spec_validSeat_def)
  then have "\<not> tolower (hd s) < CHR ''a'' \<and> \<not> tolower (hd s) > CHR ''h''"
    by (auto simp: tolower_def less_char_def less_eq_char_def)
  with v show ?thesis
    by (simp add: spec_validSeat_def validateSeat_def atoi_decimal)
qed

subsection \<open>The read-only operations in memory\<close>

text \<open>On a store that holds a tree, each operation returns, leaves the store as it was
  and computes what the function on trees computes.\<close>

lemma searchNode_h_tree:
  "tree_at h p t \<Longrightarrow> \<exists>q. searchNode_h h p k = Some (q, h) \<and> tree_at h q (searchNode t k)"
proof (induction t arbitrary: p)
  case NULL
  then show ?case by (subst searchNode_h.simps) simp
next
  case (Node rk rd l r)
  from Node.prems obtain a c where p: "p = Some a" and c: "h a = Some c"
    and kc: "ckey c = rk" "cdata c = rd" and tl: "tree_at h (cleft c) l" and tr: "tree_at h (cright c) r"
    by (auto split: option.splits)
  show ?case
    using Node.IH(1) [OF tl] Node.IH(2) [OF tr] Node.prems p c kc
    by (subst searchNode_h.simps) (auto)
qed

lemma findMin_h_tree:
  "tree_at h p t \<Longrightarrow> \<exists>q. findMin_h h p = Some (q, h) \<and> tree_at h q (findMin t)"
proof (induction t arbitrary: p)
  case NULL
  then show ?case by (subst findMin_h.simps) simp
next
  case (Node rk rd l r)
  from Node.prems obtain a c where p: "p = Some a" and c: "h a = Some c"
    and kc: "ckey c = rk" "cdata c = rd" and tl: "tree_at h (cleft c) l" and tr: "tree_at h (cright c) r"
    by (auto split: option.splits)
  have ln: "cleft c \<noteq> None \<longleftrightarrow> l \<noteq> NULL" using tl by (cases l) (auto split: option.splits)
  show ?case
    using Node.IH(1) [OF tl] Node.prems p c kc ln
    by (subst findMin_h.simps) (auto)
qed

lemma inorderTraversalPrint_h_tree:
  "tree_at h p t \<Longrightarrow>
   inorderTraversalPrint_h h p ft f out = Some (out @ inorderTraversalPrint t ft f, h)"
proof (induction t arbitrary: p out)
  case NULL
  then show ?case by (subst inorderTraversalPrint_h.simps) simp
next
  case (Node rk rd l r)
  from Node.prems obtain a c where p: "p = Some a" and c: "h a = Some c"
    and kc: "ckey c = rk" "cdata c = rd" and tl: "tree_at h (cleft c) l" and tr: "tree_at h (cright c) r"
    by (auto split: option.splits)
  show ?case
    by (subst inorderTraversalPrint_h.simps, cases rd)
      (simp_all add: p c kc Node.IH(1) [OF tl] Node.IH(2) [OF tr])
qed

lemma collectTicketKeysForEvent_h_tree:
  "tree_at h p t \<Longrightarrow>
   collectTicketKeysForEvent_h h p ec buf = Some (collectTicketKeysForEvent t ec buf, h)"
proof (induction t arbitrary: p buf)
  case NULL
  then show ?case by (subst collectTicketKeysForEvent_h.simps) simp
next
  case (Node rk rd l r)
  from Node.prems obtain a c where p: "p = Some a" and c: "h a = Some c"
    and kc: "ckey c = rk" "cdata c = rd" and tl: "tree_at h (cleft c) l" and tr: "tree_at h (cright c) r"
    by (auto split: option.splits)
  show ?case
    by (subst collectTicketKeysForEvent_h.simps, cases rd)
      (simp_all add: p c kc Node.IH(1) [OF tl] Node.IH(2) [OF tr] Let_def)
qed

section \<open>The claims\<close>

text \<open>
  C2. Whatever sequence of insertions and deletions is applied to the empty tree, the
  result has the strict binary-search-tree property, and its in-order traversal lists
  the keys in strictly ascending order of \<^verbatim>\<open>strcmp\<close>, without a duplicate.
\<close>

theorem C2_bst_invariant:
  "bst (foldl applyOp NULL ops)
   \<and> sorted_wrt (\<lambda>a b. strcmp a b < 0) (keys (foldl applyOp NULL ops))
   \<and> distinct (keys (foldl applyOp NULL ops))"
proof -
  have b: "bst (foldl applyOp NULL ops)"
    by (rule bst_foldl_applyOp) simp
  then have s: "sorted_wrt (<) (keys (foldl applyOp NULL ops))"
    by (simp add: bst_sorted)
  from b have "distinct (keys (foldl applyOp NULL ops))"
    by (rule bst_distinct)
  with b s show ?thesis by (simp add: strcmp_less)
qed

theorem C2_bst_invariant_witness:
  "bst (foldl applyOp NULL
      [Insert ''E_5'' (sampleEvent 5), Insert ''E_3'' (sampleEvent 3),
       Insert ''E_7'' (sampleEvent 7), Insert ''E_6'' (sampleEvent 6),
       Insert ''E_3'' (sampleEvent 9), Delete ''E_5''])
   \<and> keys (foldl applyOp NULL
      [Insert ''E_5'' (sampleEvent 5), Insert ''E_3'' (sampleEvent 3),
       Insert ''E_7'' (sampleEvent 7), Insert ''E_6'' (sampleEvent 6),
       Insert ''E_3'' (sampleEvent 9), Delete ''E_5'']) = [''E_3'', ''E_6'', ''E_7'']"
  using C2_bst_invariant [of
      "[Insert ''E_5'' (sampleEvent 5), Insert ''E_3'' (sampleEvent 3),
        Insert ''E_7'' (sampleEvent 7), Insert ''E_6'' (sampleEvent 6),
        Insert ''E_3'' (sampleEvent 9), Delete ''E_5'']"]
  by (simp add: createNode_def)

text \<open>
  C3. In a search tree, when the node that matches the deleted key has two children,
  \<^verbatim>\<open>deleteNode\<close> takes the in-order successor, which is \<^verbatim>\<open>findMin\<close> of the right subtree
  and carries the least key of that subtree, copies its key and its tagged payload into
  the matched node and deletes the successor's key from the right subtree, which
  thereby loses exactly its first entry. The in-order key sequence of the whole tree
  afterwards is the one before with the deleted key removed: no other key is lost and
  none occurs twice.
\<close>

theorem C3_two_child_delete:
  assumes "bst t" and "searchNode t k = Node k' d l r" and "l \<noteq> NULL" and "r \<noteq> NULL"
  shows "findMin r \<noteq> NULL
    \<and> (key (findMin r), data (findMin r)) = hd (entries r)
    \<and> (\<forall>x \<in> set (keys r). strcmp (key (findMin r)) x \<le> 0)
    \<and> deleteNode (Node k' d l r) k =
        Node (key (findMin r)) (data (findMin r)) l (deleteNode r (key (findMin r)))
    \<and> entries (deleteNode r (key (findMin r))) = tl (entries r)
    \<and> keys (deleteNode t k) = remove1 k (keys t)
    \<and> set (keys (deleteNode t k)) = set (keys t) - {k}
    \<and> distinct (keys (deleteNode t k))"
proof -
  let ?m = "findMin r"
  have kk: "k' = k" using assms(2) by (rule searchNode_key)
  have bn: "bst (Node k' d l r)"
    using bst_searchNode [OF assms(1), of k] assms(2) by simp
  note b = bst_NodeD [OF bn]
  have 1: "?m \<noteq> NULL" using assms(4) by (rule findMin_not_NULL)
  have 2: "(key ?m, data ?m) = hd (entries r)"
    using findMin_first [OF assms(4)] by simp
  have kr: "keys r = key ?m # tl (keys r)" using assms(4) by (rule keys_hd_findMin)
  have sr: "sorted_wrt (<) (keys r)" using b(4) by (simp add: bst_sorted)
  have least: "\<forall>x \<in> set (tl (keys r)). key ?m < x"
    using sr by (subst (asm) kr) simp
  then have 3: "\<forall>x \<in> set (keys r). strcmp (key ?m) x \<le> 0"
    by (subst kr) (auto simp: strcmp_eq0 strcmp_less le_less)
  have 4: "deleteNode (Node k' d l r) k = Node (key ?m) (data ?m) l (deleteNode r (key ?m))"
    using kk assms(3,4) by (simp add: Let_def strcmp_less strcmp_greater)
  have "tl (keys r) = map fst (tl (entries r))" by (simp add: keys_def map_tl)
  with least have "\<forall>p \<in> set (tl (entries r)). fst p \<noteq> key ?m" by auto
  then have "filter (\<lambda>p. fst p \<noteq> key ?m) (entries r) = tl (entries r)"
    by (subst findMin_hd [OF assms(4)]) (simp add: filter_all_ne)
  then have 5: "entries (deleteNode r (key ?m)) = tl (entries r)"
    by (simp add: entries_deleteNode [OF b(4)])
  have dk: "distinct (keys t)" using assms(1) by (rule bst_distinct)
  have "filter (\<lambda>x. x \<noteq> k) xs = removeAll k xs" for xs :: "string list"
    by (induction xs) auto
  then have 6: "keys (deleteNode t k) = remove1 k (keys t)"
    using dk by (simp add: keys_deleteNode [OF assms(1)] distinct_remove1_removeAll)
  have 7: "set (keys (deleteNode t k)) = set (keys t) - {k}"
    by (auto simp: keys_deleteNode [OF assms(1)])
  have 8: "distinct (keys (deleteNode t k))"
    using bst_deleteNode [OF assms(1)] by (rule bst_distinct)
  from 1 2 3 4 5 6 7 8 show ?thesis by blast
qed

theorem C3_two_child_delete_witness:
  "bst sampleTree
   \<and> searchNode sampleTree ''E_5'' = sampleTree
   \<and> left sampleTree \<noteq> NULL \<and> right sampleTree \<noteq> NULL
   \<and> key (findMin (right sampleTree)) = ''E_6''
   \<and> keys sampleTree = [''E_3'', ''E_5'', ''E_6'', ''E_7'', ''T_5_a1'', ''T_5_b2'', ''T_7_a1'']
   \<and> keys (deleteNode sampleTree ''E_5'')
       = [''E_3'', ''E_6'', ''E_7'', ''T_5_a1'', ''T_5_b2'', ''T_7_a1'']"
proof -
  have s: "searchNode sampleTree ''E_5''
      = Node ''E_5'' (sampleEvent 5) (left sampleTree) (right sampleTree)"
    by (simp add: sampleTree_eq)
  have l: "left sampleTree \<noteq> NULL" and r: "right sampleTree \<noteq> NULL"
    by (simp_all add: sampleTree_eq)
  from C3_two_child_delete [OF bst_sampleTree s l r]
  have "keys (deleteNode sampleTree ''E_5'') = remove1 ''E_5'' (keys sampleTree)"
    by blast
  then show ?thesis using bst_sampleTree by (simp add: sampleTree_eq)
qed

text \<open>
  C4. In a search tree, after \<^verbatim>\<open>deleteNode\<close> of a key a search for that key finds
  nothing, every other entry of the tree is still found with the payload it had, a
  search for any other key gives the payload it gave before, and deleting a key that is
  not in the tree returns the tree as it was.
\<close>

theorem C4_delete_complete:
  assumes "bst t"
  shows "searchNode (deleteNode t k) k = NULL
    \<and> (\<forall>k' d. (k', d) \<in> set (entries t) \<and> k' \<noteq> k \<longrightarrow>
          payloadAt (searchNode (deleteNode t k) k') = Some d)
    \<and> (\<forall>k'. k' \<noteq> k \<longrightarrow>
          payloadAt (searchNode (deleteNode t k) k') = payloadAt (searchNode t k'))
    \<and> (k \<notin> set (keys t) \<longrightarrow> deleteNode t k = t)"
proof -
  have bd: "bst (deleteNode t k)" using assms by (rule bst_deleteNode)
  have 1: "searchNode (deleteNode t k) k = NULL"
    by (simp add: search_NULL_iff [OF bd] keys_deleteNode [OF assms])
  have 3: "payloadAt (searchNode (deleteNode t k) k') = payloadAt (searchNode t k')"
    if "k' \<noteq> k" for k'
    using that
    by (simp add: search_map_of [OF bd] search_map_of [OF assms] map_of_deleteNode [OF assms])
  have 2: "payloadAt (searchNode (deleteNode t k) k') = Some d"
    if "(k', d) \<in> set (entries t)" and "k' \<noteq> k" for k' d
    using 3 [OF that(2)] searchNode_entry [OF assms that(1)] by simp
  have 4: "deleteNode t k = t" if "k \<notin> set (keys t)"
    using that by (intro deleteNode_absent) (simp add: search_NULL_iff [OF assms])
  from 1 2 3 4 show ?thesis by blast
qed

theorem C4_delete_complete_witness:
  "bst sampleTree
   \<and> searchNode (deleteNode sampleTree ''E_7'') ''E_7'' = NULL
   \<and> payloadAt (searchNode (deleteNode sampleTree ''E_7'') ''T_7_a1'')
       = Some (sampleTicket 7 ''a1'')
   \<and> deleteNode sampleTree ''E_9'' = sampleTree"
proof -
  have e: "(''T_7_a1'', sampleTicket 7 ''a1'') \<in> set (entries sampleTree)
      \<and> ''T_7_a1'' \<noteq> ''E_7''"
    by (simp add: sampleTree_eq)
  have a: "''E_9'' \<notin> set (keys sampleTree)"
    by (simp add: sampleTree_eq)
  from C4_delete_complete [OF bst_sampleTree, of "''E_7''"] e
  have "searchNode (deleteNode sampleTree ''E_7'') ''E_7'' = NULL
    \<and> payloadAt (searchNode (deleteNode sampleTree ''E_7'') ''T_7_a1'')
        = Some (sampleTicket 7 ''a1'')"
    by blast
  moreover from C4_delete_complete [OF bst_sampleTree, of "''E_9''"] a
  have "deleteNode sampleTree ''E_9'' = sampleTree" by blast
  ultimately show ?thesis using bst_sampleTree by simp
qed

text \<open>
  C5. Inserting a key a second time, with the same or another record, changes nothing:
  the tree after the second \<^verbatim>\<open>insertNode\<close> is the tree after the first. In a search tree
  it holds exactly one node with that key, and a search for the key gives the record of
  the first insertion (or the record the tree already held for the key before both).
\<close>

theorem C5_insert_twice:
  "insertNode (insertNode t k d1) k d2 = insertNode t k d1
   \<and> (bst t \<longrightarrow>
        length (filter (\<lambda>x. x = k) (keys (insertNode (insertNode t k d1) k d2))) = 1)
   \<and> payloadAt (searchNode (insertNode (insertNode t k d1) k d2) k)
       = (if searchNode t k = NULL then Some d1 else payloadAt (searchNode t k))"
proof -
  have s: "searchNode (insertNode t k d1) k \<noteq> NULL"
  proof (cases "searchNode t k = NULL")
    case True
    then show ?thesis by (simp add: insertNode_search_absent createNode_def)
  next
    case False
    then show ?thesis by (simp add: insertNode_found)
  qed
  then have 1: "insertNode (insertNode t k d1) k d2 = insertNode t k d1"
    by (rule insertNode_found)
  have 2: "length (filter (\<lambda>x. x = k) (keys (insertNode t k d1))) = 1" if "bst t"
  proof -
    have "distinct (keys (insertNode t k d1))"
      using bst_insertNode [OF that] by (rule bst_distinct)
    moreover have "k \<in> set (keys (insertNode t k d1))"
      by (simp add: keys_insertNode)
    ultimately show ?thesis by (simp add: distinct_length_filter)
  qed
  have 3: "payloadAt (searchNode (insertNode t k d1) k)
       = (if searchNode t k = NULL then Some d1 else payloadAt (searchNode t k))"
    by (simp add: insertNode_search_absent insertNode_found createNode_def)
  from 1 2 3 show ?thesis by simp
qed

theorem C5_insert_twice_witness:
  "bst sampleTree
   \<and> insertNode (insertNode sampleTree ''E_4'' (sampleEvent 4)) ''E_4'' (sampleEvent 8)
       = insertNode sampleTree ''E_4'' (sampleEvent 4)
   \<and> length (filter (\<lambda>x. x = ''E_4'')
        (keys (insertNode (insertNode sampleTree ''E_4'' (sampleEvent 4))
                 ''E_4'' (sampleEvent 8)))) = 1
   \<and> payloadAt (searchNode
        (insertNode (insertNode sampleTree ''E_4'' (sampleEvent 4)) ''E_4'' (sampleEvent 8))
        ''E_4'')
       = Some (sampleEvent 4)"
proof -
  have h: "searchNode sampleTree ''E_4'' = NULL" by (simp add: sampleTree_eq)
  note c = C5_insert_twice [of sampleTree "''E_4''" "sampleEvent 4" "sampleEvent 8"]
  from c bst_sampleTree
  have "length (filter (\<lambda>x. x = ''E_4'')
        (keys (insertNode (insertNode sampleTree ''E_4'' (sampleEvent 4))
                 ''E_4'' (sampleEvent 8)))) = 1"
    by blast
  moreover from c [THEN conjunct2, THEN conjunct2]
  have "payloadAt (searchNode
        (insertNode (insertNode sampleTree ''E_4'' (sampleEvent 4)) ''E_4'' (sampleEvent 8))
        ''E_4'')
       = Some (sampleEvent 4)"
    by (simp only: h if_True simp_thms)
  ultimately show ?thesis using c [THEN conjunct1] bst_sampleTree by blast
qed

text \<open>
  C6. When a key is not yet in the tree (a search for it finds nothing),
  \<^verbatim>\<open>insertNode\<close> of the key with any event or ticket record followed by \<^verbatim>\<open>searchNode\<close> of
  the key returns the node \<^verbatim>\<open>createNode\<close> made: it has that key and exactly the record
  inserted.
\<close>

theorem C6_insert_search:
  assumes "searchNode t k = NULL \<or> k \<notin> set (keys t)"
  shows "searchNode (insertNode t k d) k = createNode k d
    \<and> key (searchNode (insertNode t k d) k) = k
    \<and> payloadAt (searchNode (insertNode t k d) k) = Some d"
proof -
  have "searchNode t k = NULL" using assms searchNode_absent by blast
  then show ?thesis by (simp add: insertNode_search_absent createNode_def)
qed

theorem C6_insert_search_witness:
  "searchNode sampleTree ''T_7_c149'' = NULL
   \<and> payloadAt (searchNode (insertNode sampleTree ''T_7_c149'' (sampleTicket 7 ''c149''))
        ''T_7_c149'')
       = Some (sampleTicket 7 ''c149'')"
proof -
  have n: "searchNode sampleTree ''T_7_c149'' = NULL" by (simp add: sampleTree_eq)
  then have "searchNode sampleTree ''T_7_c149'' = NULL
      \<or> ''T_7_c149'' \<notin> set (keys sampleTree)"
    by simp
  from C6_insert_search [OF this, of "sampleTicket 7 ''c149''"] n show ?thesis by blast
qed

text \<open>
  C1. In a search tree that holds the key of the event with code \<open>c\<close>, \<^verbatim>\<open>removeEvent\<close>
  first collects the keys of all nodes that are tickets with that event code, in in-order,
  then deletes these keys one by one, then deletes the event key, and reports the number
  of tickets. Afterwards a search for the event key and for the key of each such ticket
  finds nothing, and every other entry of the tree is still found with its payload.
\<close>

theorem C1_cascading_delete:
  assumes "bst root" and "0 \<le> c" and "eventKey c \<in> set (keys root)"
  shows "fst (collectTicketKeysForEvent root c ([], 10))
       = map fst (filter (\<lambda>p. ticketOf c (snd p)) (entries root))
    \<and> removeEvent root (Some c)
       = (deleteNode
            (foldl deleteNode root (map fst (filter (\<lambda>p. ticketOf c (snd p)) (entries root))))
            (eventKey c),
          Inr (EventRemoved (length (filter (\<lambda>p. ticketOf c (snd p)) (entries root)))))
    \<and> searchNode (fst (removeEvent root (Some c))) (eventKey c) = NULL
    \<and> (\<forall>k d. (k, d) \<in> set (entries root) \<and> ticketOf c d \<longrightarrow>
          searchNode (fst (removeEvent root (Some c))) k = NULL)
    \<and> (\<forall>k d. (k, d) \<in> set (entries root) \<and> k \<noteq> eventKey c \<and> \<not> ticketOf c d \<longrightarrow>
          payloadAt (searchNode (fst (removeEvent root (Some c))) k) = Some d)"
proof -
  let ?ks = "map fst (filter (\<lambda>p. ticketOf c (snd p)) (entries root))"
  let ?t1 = "foldl deleteNode root ?ks"
  let ?t2 = "deleteNode ?t1 (eventKey c)"
  have 1: "fst (collectTicketKeysForEvent root c ([], 10)) = ?ks"
    by (simp add: collect_fst)
  have present: "searchNode root (eventKey c) \<noteq> NULL"
    using assms(3) by (simp add: search_NULL_iff [OF assms(1)])
  have 2: "removeEvent root (Some c)
      = (?t2, Inr (EventRemoved (length (filter (\<lambda>p. ticketOf c (snd p)) (entries root)))))"
    using removeEvent_eq [OF assms(2) present] by (simp add: 1)
  have r: "fst (removeEvent root (Some c)) = ?t2" by (simp add: 2)
  have b1: "bst ?t1" using foldl_deleteNode [OF assms(1)] by blast
  have b2: "bst ?t2" using b1 by (rule bst_deleteNode)
  have m: "map_of (entries ?t2) k
      = (if k = eventKey c \<or> k \<in> set ?ks then None else map_of (entries root) k)" for k
    using foldl_deleteNode [OF assms(1), of ?ks k] by (simp add: map_of_deleteNode [OF b1])
  have look: "payloadAt (searchNode ?t2 k)
      = (if k = eventKey c \<or> k \<in> set ?ks then None else payloadAt (searchNode root k))" for k
    by (simp add: search_map_of [OF b2] search_map_of [OF assms(1)] m)
  have 3: "searchNode ?t2 (eventKey c) = NULL"
    using look [of "eventKey c"] by (simp add: payloadAt_None)
  have 4: "searchNode ?t2 k = NULL" if "(k, d) \<in> set (entries root)" and "ticketOf c d" for k d
  proof -
    have "k \<in> set ?ks" using that by force
    then show ?thesis using look [of k] by (simp add: payloadAt_None)
  qed
  have 5: "payloadAt (searchNode ?t2 k) = Some d"
    if e: "(k, d) \<in> set (entries root)" and ne: "k \<noteq> eventKey c" and nt: "\<not> ticketOf c d" for k d
  proof -
    have dist: "distinct (map fst (entries root))"
      using bst_distinct [OF assms(1)] by (simp add: keys_def)
    have "k \<notin> set ?ks"
    proof
      assume "k \<in> set ?ks"
      then obtain d' where e': "(k, d') \<in> set (entries root)" and t': "ticketOf c d'" by auto
      from dist e e' have "d' = d" by (meson eq_key_imp_eq_value)
      with t' nt show False by simp
    qed
    with ne look [of k] searchNode_entry [OF assms(1) e] show ?thesis by simp
  qed
  from 1 2 3 4 5 show ?thesis unfolding r by blast
qed

theorem C1_cascading_delete_witness:
  "bst sampleTree \<and> (0 :: int) \<le> 5 \<and> eventKey 5 \<in> set (keys sampleTree)
   \<and> keys sampleTree = [''E_3'', ''E_5'', ''E_6'', ''E_7'', ''T_5_a1'', ''T_5_b2'', ''T_7_a1'']
   \<and> searchNode (fst (removeEvent sampleTree (Some 5))) ''E_5'' = NULL
   \<and> searchNode (fst (removeEvent sampleTree (Some 5))) ''T_5_a1'' = NULL
   \<and> searchNode (fst (removeEvent sampleTree (Some 5))) ''T_5_b2'' = NULL
   \<and> payloadAt (searchNode (fst (removeEvent sampleTree (Some 5))) ''T_7_a1'')
       = Some (sampleTicket 7 ''a1'')
   \<and> payloadAt (searchNode (fst (removeEvent sampleTree (Some 5))) ''E_6'')
       = Some (sampleEvent 6)"
proof -
  have p: "eventKey 5 \<in> set (keys sampleTree)"
    by (simp add: eventKey_5 sampleTree_eq)
  have z: "(0 :: int) \<le> 5" by simp
  note c = C1_cascading_delete [OF bst_sampleTree z p]
  have t: "(''T_5_a1'', sampleTicket 5 ''a1'') \<in> set (entries sampleTree) \<and> ticketOf 5 (sampleTicket 5 ''a1'')"
    "(''T_5_b2'', sampleTicket 5 ''b2'') \<in> set (entries sampleTree) \<and> ticketOf 5 (sampleTicket 5 ''b2'')"
    by (simp_all add: sampleTree_eq ticketOf_def sampleTicket_def)
  have o: "(''T_7_a1'', sampleTicket 7 ''a1'') \<in> set (entries sampleTree) \<and> ''T_7_a1'' \<noteq> eventKey 5
       \<and> \<not> ticketOf 5 (sampleTicket 7 ''a1'')"
    "(''E_6'', sampleEvent 6) \<in> set (entries sampleTree) \<and> ''E_6'' \<noteq> eventKey 5
       \<and> \<not> ticketOf 5 (sampleEvent 6)"
    by (simp_all add: sampleTree_eq ticketOf_def sampleTicket_def sampleEvent_def eventKey_5)
  from c have "searchNode (fst (removeEvent sampleTree (Some 5))) (eventKey 5) = NULL" by blast
  moreover from c t have "searchNode (fst (removeEvent sampleTree (Some 5))) ''T_5_a1'' = NULL"
    "searchNode (fst (removeEvent sampleTree (Some 5))) ''T_5_b2'' = NULL" by blast+
  moreover from c o have "payloadAt (searchNode (fst (removeEvent sampleTree (Some 5))) ''T_7_a1'')
       = Some (sampleTicket 7 ''a1'')"
     "payloadAt (searchNode (fst (removeEvent sampleTree (Some 5))) ''E_6'')
       = Some (sampleEvent 6)" by blast+
  ultimately show ?thesis using bst_sampleTree p by (simp add: eventKey_5 sampleTree_eq)
qed

text \<open>
  C7 (as amended). When the tree holds no key of an event with the code read,
  \<^verbatim>\<open>addTicket\<close> returns the root pointer it was given, with no insertion: for a code that
  is not negative it reports that no event exists with that code (UnknownEvent), for a
  negative code, or input that is not an integer, that the code is invalid (InvalidCode).
\<close>

theorem C7_addTicket_unknown_event:
  assumes "eventKey (getIntegerInput scanned) \<notin> set (keys root)"
  shows "addTicket root scanned seat_in afm_in first_in last_in
     = (root, Inl (if getIntegerInput scanned < 0 then InvalidCode else UnknownEvent))"
  using searchNode_absent [OF assms] by (simp add: addTicket_def Let_def)

theorem C7_addTicket_unknown_event_witness:
  "eventKey 9 \<notin> set (keys sampleTree)
   \<and> addTicket sampleTree (Some 9) ''a1'' ''123456789'' ''Ada'' ''Byron''
       = (sampleTree, Inl UnknownEvent)
   \<and> addTicket sampleTree None ''a1'' ''123456789'' ''Ada'' ''Byron''
       = (sampleTree, Inl InvalidCode)"
proof -
  have a: "eventKey (getIntegerInput (Some 9)) \<notin> set (keys sampleTree)"
    and b: "eventKey (getIntegerInput None) \<notin> set (keys sampleTree)"
    by (simp_all add: getIntegerInput_def sampleTree_eq key_eval)
  from C7_addTicket_unknown_event [OF a, of "''a1''" "''123456789''" "''Ada''" "''Byron''"]
       C7_addTicket_unknown_event [OF b, of "''a1''" "''123456789''" "''Ada''" "''Byron''"] a
  show ?thesis by (simp add: getIntegerInput_def)
qed

text \<open>
  C7 as first stated fails: for the code -1 no event key is in the tree, yet the error
  reported is not UnknownEvent.
\<close>

theorem C7_counterexample:
  "eventKey (- 1) \<notin> set (keys sampleTree)
   \<and> snd (addTicket sampleTree (Some (- 1)) ''a1'' ''123456789'' ''Ada'' ''Byron'')
       \<noteq> Inl UnknownEvent"
  by (simp add: addTicket_def getIntegerInput_def sampleTree_eq key_eval)

text \<open>
  C10. For a negative code, and for input that is not an integer (which
  \<^verbatim>\<open>getIntegerInput\<close> turns into -1), \<^verbatim>\<open>addEvent\<close>, \<^verbatim>\<open>findEvent\<close>, \<^verbatim>\<open>removeEvent\<close> and
  \<^verbatim>\<open>addTicket\<close> report an invalid code whatever the tree is and return the root pointer
  they were given; and no session started from the empty tree ever produces a tree that
  contains the event key or a ticket key of a negative code.
\<close>

theorem C10_negative_code_rejected:
  assumes "c < 0" and "scanned = Some c \<or> scanned = None"
  shows "getIntegerInput scanned < 0
    \<and> addEvent root scanned title_in date_in time_in = (root, Inl InvalidCode)
    \<and> findEvent root scanned = Inl InvalidCode
    \<and> removeEvent root scanned = (root, Inl InvalidCode)
    \<and> addTicket root scanned seat_in afm_in first_in last_in = (root, Inl InvalidCode)
    \<and> eventKey c \<notin> set (keys (foldl runCommand NULL cmds))
    \<and> ticketKey c s \<notin> set (keys (foldl runCommand NULL cmds))"
proof -
  have n: "getIntegerInput scanned < 0"
    using assms by (auto simp: getIntegerInput_def)
  have "catalogInv (foldl runCommand NULL cmds)"
    by (rule catalogInv_session) (simp add: catalogInv_def)
  then have g: "\<forall>k \<in> set (keys (foldl runCommand NULL cmds)). goodKey k"
    by (simp add: catalogInv_def)
  have "eventKey c \<notin> set (keys (foldl runCommand NULL cmds))"
    "ticketKey c s \<notin> set (keys (foldl runCommand NULL cmds))"
    using g goodKey_not_negative [OF _ assms(1)] by blast+
  with n show ?thesis
    by (simp add: addEvent_def findEvent_def removeEvent_def addTicket_def Let_def)
qed

theorem C10_negative_code_rejected_witness:
  "(- 3 :: int) < 0
   \<and> removeEvent sampleTree (Some (- 3)) = (sampleTree, Inl InvalidCode)
   \<and> addTicket sampleTree None ''a1'' ''123456789'' ''Ada'' ''Byron'' = (sampleTree, Inl InvalidCode)
   \<and> keys (foldl runCommand NULL sampleSession) = [''E_5'', ''T_5_a1'']
   \<and> eventKey (- 3) = ''E_-3''
   \<and> ''E_-3'' \<notin> set (keys (foldl runCommand NULL sampleSession))"
proof -
  have n: "(- 3 :: int) < 0" by simp
  have k: "eventKey (- 3) = ''E_-3''" by (simp add: key_eval)
  from C10_negative_code_rejected [OF n, of "Some (- 3)" sampleTree _ _ _ _ _ _ _ sampleSession]
  have "removeEvent sampleTree (Some (- 3)) = (sampleTree, Inl InvalidCode)"
    and "eventKey (- 3) \<notin> set (keys (foldl runCommand NULL sampleSession))"
    by simp_all
  moreover
  from C10_negative_code_rejected [OF n, of None sampleTree _ _ _ "''a1''" "''123456789''" "''Ada''" "''Byron''"]
  have "addTicket sampleTree None ''a1'' ''123456789'' ''Ada'' ''Byron'' = (sampleTree, Inl InvalidCode)"
    by simp
  ultimately show ?thesis using k by (simp add: sampleSession_keys)
qed

text \<open>
  C8. \<^verbatim>\<open>validateSeat\<close> accepts every seat of the stated format, but not only those:
  \<^verbatim>\<open>atoi\<close> stops at the first character that is not a digit, so the seat \<^verbatim>\<open>a1x\<close> is
  accepted although its remaining characters \<^verbatim>\<open>1x\<close> are not an integer.
\<close>

theorem C8_validateSeat_trailing_characters:
  "validateSeat ''a1x'' \<and> \<not> spec_validSeat ''a1x''"
  by (simp add: spec_validSeat_def seat_eval)

text \<open>
  C9. On a store that holds a tree at the root pointer, \<^verbatim>\<open>searchNode\<close>, \<^verbatim>\<open>findMin\<close>,
  \<^verbatim>\<open>inorderTraversalPrint\<close> and \<^verbatim>\<open>collectTicketKeysForEvent\<close> return, for every argument,
  and the store they leave is the store they were given: no key, payload or child pointer
  of any node has changed. What they return is the node, the printed records and the
  collected keys that the functions on trees compute.
\<close>

theorem C9_read_only_frame:
  assumes "tree_at h p t"
  shows "(\<exists>q. searchNode_h h p k = Some (q, h) \<and> tree_at h q (searchNode t k))
    \<and> (\<exists>q. findMin_h h p = Some (q, h) \<and> tree_at h q (findMin t))
    \<and> inorderTraversalPrint_h h p filterType eventCodeFilter out
        = Some (out @ inorderTraversalPrint t filterType eventCodeFilter, h)
    \<and> collectTicketKeysForEvent_h h p ec buf = Some (collectTicketKeysForEvent t ec buf, h)"
  using searchNode_h_tree [OF assms] findMin_h_tree [OF assms]
    inorderTraversalPrint_h_tree [OF assms] collectTicketKeysForEvent_h_tree [OF assms]
  by simp

theorem C9_read_only_frame_witness:
  "tree_at sampleHeap (Some 1) smallTree
   \<and> (\<exists>q. searchNode_h sampleHeap (Some 1) ''E_3'' = Some (q, sampleHeap))
   \<and> (\<exists>q. findMin_h sampleHeap (Some 1) = Some (q, sampleHeap))
   \<and> inorderTraversalPrint_h sampleHeap (Some 1) EVENT_NODE (- 1) []
       = Some ([sampleEvent 3, sampleEvent 5], sampleHeap)
   \<and> collectTicketKeysForEvent_h sampleHeap (Some 1) 5 ([], 10)
       = Some (([''T_5_a1''], 10), sampleHeap)"
proof -
  have t: "tree_at sampleHeap (Some 1) smallTree"
    by (simp add: sampleHeap_def smallTree_def)
  from C9_read_only_frame [OF t, of "''E_3''" EVENT_NODE "- 1" "[]" 5 "([], 10)"] t
  show ?thesis
    by (auto simp: smallTree_def sampleEvent_def sampleTicket_def)
qed

end
